theory Spec2Isabelle
  imports Main
begin

section \<open>Python strings\<close>

text \<open>
  A Python \<open>str\<close> is modelled as a \<open>string\<close>, one \<open>char\<close> per character (the
  model is restricted to characters that fit a \<open>char\<close>).
\<close>

text \<open>\<open>s.startswith(p)\<close>\<close>

definition startswith :: "string \<Rightarrow> string \<Rightarrow> bool" where
  "startswith s p = (take (length p) s = p)"

text \<open>\<open>sub in s\<close> for two strings: \<open>sub\<close> occurs in \<open>s\<close> as a contiguous run.\<close>

fun str_in :: "string \<Rightarrow> string \<Rightarrow> bool" where
  "str_in sub [] = (sub = [])"
| "str_in sub (c # cs) = (startswith (c # cs) sub \<or> str_in sub cs)"

text \<open>\<open>s.split(c)\<close> for a one-character separator: never empty.\<close>

fun split_on :: "char \<Rightarrow> string \<Rightarrow> string list" where
  "split_on c [] = [[]]"
| "split_on c (x # xs) =
     (if x = c then [] # split_on c xs
      else (case split_on c xs of
              [] \<Rightarrow> [[x]]
            | w # ws \<Rightarrow> (x # w) # ws))"

section \<open>Errors\<close>

datatype error =
    TimeoutError
  | StrictModeError
  | AttributeError
  | IndexError
  | NavigationError
  | FileNotFoundError
  | CsvError
  | ValueError
  | StopIteration

text \<open>\<open>xs[i]\<close> for a non-negative index: out of range raises \<open>IndexError\<close>.\<close>

definition index :: "'a list \<Rightarrow> nat \<Rightarrow> error + 'a" where
  "index xs i = (if i < length xs then Inr (xs ! i) else Inl IndexError)"

section \<open>Elements and locators\<close>

text \<open>
  An element of a page: its rendered text, its attributes, and the elements below it
  that a selector finds, in document order, each paired with the selector it matches.
\<close>

datatype element =
  Element (inner_text: string) (attributes: "(string \<times> string) list")
          (matches: "(string \<times> element) list")

text \<open>
  A locator is the list of the elements it resolves to. \<open>locator sel e\<close> are the elements
  below \<open>e\<close> that match \<open>sel\<close>.
\<close>

type_synonym locator = "element list"

definition locator :: "string \<Rightarrow> element \<Rightarrow> locator" where
  "locator sel e = map snd (filter (\<lambda>m. fst m = sel) (matches e))"

definition loc_locator :: "string \<Rightarrow> locator \<Rightarrow> locator" where
  "loc_locator sel l = concat (map (locator sel) l)"

definition loc_first :: "locator \<Rightarrow> locator" where
  "loc_first l = take 1 l"

definition loc_nth :: "locator \<Rightarrow> nat \<Rightarrow> locator" where
  "loc_nth l i = take 1 (drop i l)"

definition loc_count :: "locator \<Rightarrow> nat" where
  "loc_count l = length l"

text \<open>
  \<open>inner_text()\<close> needs exactly one element: it times out waiting for an element when
  there is none and refuses a locator that resolves to several.
\<close>

fun loc_inner_text :: "locator \<Rightarrow> error + string" where
  "loc_inner_text [] = Inl TimeoutError"
| "loc_inner_text [e] = Inr (inner_text e)"
| "loc_inner_text (e # e' # es) = Inl StrictModeError"

text \<open>\<open>get_attribute(name)\<close>: \<open>None\<close> when the element has no such attribute.\<close>

fun loc_get_attribute :: "string \<Rightarrow> locator \<Rightarrow> error + string option" where
  "loc_get_attribute name [] = Inl TimeoutError"
| "loc_get_attribute name [e] = Inr (map_of (attributes e) name)"
| "loc_get_attribute name (e # e' # es) = Inl StrictModeError"

section \<open>Field extraction\<close>

text \<open>A Python \<open>dict\<close> with string keys and values, in insertion order.\<close>

type_synonym dict = "(string \<times> string) list"

text \<open>\<open>d[k] = v\<close>\<close>

fun dict_set :: "string \<Rightarrow> string \<Rightarrow> dict \<Rightarrow> dict" where
  "dict_set k v [] = [(k, v)]"
| "dict_set k v (p # ps) = (if fst p = k then (k, v) # ps else p # dict_set k v ps)"

text \<open>
  The screen-reader-only span of the first element a price selector finds:
  \<open>deli_item.locator(price_class).first.locator('span.screen-reader-only').first\<close>.
\<close>

definition price_span :: "string \<Rightarrow> locator \<Rightarrow> locator" where
  "price_span price_class deli_item =
     loc_first (loc_locator ''span.screen-reader-only''
       (loc_first (loc_locator price_class deli_item)))"

text \<open>
  The loop over the price selectors of \<open>extract_item_details\<close>, from the value
  \<open>"Not found"\<close> of \<open>price\<close>: the first selector with a span decides and ends the loop.
\<close>

fun price_loop :: "string list \<Rightarrow> locator \<Rightarrow> error + string" where
  "price_loop [] deli_item = Inr ''Not found''"
| "price_loop (price_class # rest) deli_item =
     (if loc_count (price_span price_class deli_item) > 0 then
        (case loc_inner_text (price_span price_class deli_item) of
           Inl e \<Rightarrow> Inl e
         | Inr full_price \<Rightarrow>
             if CHR ''$'' \<in> set full_price then index (split_on CHR ''$'' full_price) 1
             else Inr full_price)
      else price_loop rest deli_item)"

text \<open>\<open>l.inner_text() if l.count() > 0 else "Not found"\<close>\<close>

definition text_or_not_found :: "locator \<Rightarrow> error + string" where
  "text_or_not_found l = (if loc_count l > 0 then loc_inner_text l else Inr ''Not found'')"

text \<open>\<open>l.inner_text() if l.count() > 0 else "Unknown Category"\<close>\<close>

definition text_or_unknown :: "locator \<Rightarrow> error + string" where
  "text_or_unknown l =
     (if loc_count l > 0 then loc_inner_text l else Inr ''Unknown Category'')"

definition extract_item_details :: "locator \<Rightarrow> error + dict" where
  "extract_item_details deli_item =
     (case price_loop [''div.e-2feaft'', ''div.e-s71gfs''] deli_item of
        Inl e \<Rightarrow> Inl e
      | Inr price \<Rightarrow>
     (case text_or_not_found (loc_first (loc_locator ''div.e-147kl2c'' deli_item)) of
        Inl e \<Rightarrow> Inl e
      | Inr product_name \<Rightarrow>
     (case text_or_not_found (loc_first (loc_locator ''div.e-an4oxa'' deli_item)) of
        Inl e \<Rightarrow> Inl e
      | Inr ounces \<Rightarrow>
          Inr [(''Product Name'', product_name), (''Price'', ''$'' @ price),
               (''Ounces'', ounces)])))"

section \<open>Pages and the web\<close>

text \<open>
  A loaded page: \<open>heights page n\<close> is the value of \<open>document.body.scrollHeight\<close> read
  after \<open>n\<close> scrolls to the bottom, \<open>document page n\<close> the document at that moment.
\<close>

record page =
  heights :: "nat \<Rightarrow> nat"
  document :: "nat \<Rightarrow> element"

text \<open>
  The browser's view of the network: what \<open>page.goto(url)\<close> loads (or the error it
  raises), and the page that a click on the "Confirm" button leaves.
\<close>

record web =
  goto :: "string \<Rightarrow> error + page"
  click_confirm :: "page \<Rightarrow> error + page"

text \<open>
  \<open>page.locator('a[href*="..."]')\<close>: the anchors whose \<open>href\<close> attribute contains the
  given text.
\<close>

definition locator_href_contains :: "string \<Rightarrow> element \<Rightarrow> locator" where
  "locator_href_contains sub e =
     filter (\<lambda>a. case map_of (attributes a) ''href'' of
                  None \<Rightarrow> False
                | Some h \<Rightarrow> str_in sub h)
       (locator ''a'' e)"

section \<open>Lazy-load stabilization\<close>

text \<open>
  The \<open>while True\<close> loop of \<open>scroll_to_load_all_items\<close>, after \<open>n\<close> scrolls and with
  \<open>last_height\<close> the previous reading. The result is the number of scrolls made when the
  loop leaves; \<open>None\<close> when it never does.
\<close>

partial_function (option) scroll_loop :: "(nat \<Rightarrow> nat) \<Rightarrow> nat \<Rightarrow> nat \<Rightarrow> nat option" where
  "scroll_loop h n last_height =
     (if h (Suc n) = last_height then Some (Suc n)
      else scroll_loop h (Suc n) (h (Suc n)))"

definition scroll_to_load_all_items :: "(nat \<Rightarrow> nat) \<Rightarrow> nat option" where
  "scroll_to_load_all_items h = scroll_loop h 0 (h 0)"

section \<open>Scraping one category page\<close>

text \<open>The loop over \<open>range(deli_count)\<close> of \<open>scrape_deli_items\<close>.\<close>

fun items_loop :: "locator \<Rightarrow> string \<Rightarrow> string \<Rightarrow> nat list \<Rightarrow> dict list \<Rightarrow> error + dict list" where
  "items_loop deli category current_date [] deli_data = Inr deli_data"
| "items_loop deli category current_date (i # is) deli_data =
     (case extract_item_details (loc_nth deli i) of
        Inl e \<Rightarrow> Inl e
      | Inr item_details \<Rightarrow>
          items_loop deli category current_date is
            (deli_data @
              [dict_set ''Date'' current_date (dict_set ''Category'' category item_details)]))"

text \<open>
  \<open>current_date\<close> is what \<open>datetime.now().strftime("%Y-%m-%d")\<close> gives during the call.
  \<open>None\<close>: the scroll loop never ends.
\<close>

definition scrape_deli_items :: "page \<Rightarrow> string \<Rightarrow> (error + dict list) option" where
  "scrape_deli_items page current_date =
     (case scroll_to_load_all_items (heights page) of
        None \<Rightarrow> None
      | Some n \<Rightarrow>
          Some
           (case text_or_unknown (loc_first (locator ''h1.e-4jb28s'' (document page n))) of
              Inl e \<Rightarrow> Inl e
            | Inr category \<Rightarrow>
                (let deli = locator ''h3.e-ti75j2'' (document page n);
                     deli_count = loc_count deli
                 in if deli_count > 0
                    then items_loop deli category current_date [0..<deli_count] []
                    else Inr [])))"

section \<open>Category discovery\<close>

text \<open>
  A Python \<open>set\<close> of strings is modelled as a list without repetitions, in the order of
  first insertion. Python leaves the order in which \<open>list(s)\<close> and \<open>for x in s\<close>
  enumerate a set unspecified; the theorems below speak of the members of such a list
  and of how often each occurs, never of their order.
\<close>

text \<open>\<open>s.add(x)\<close>\<close>

definition set_add :: "string \<Rightarrow> string list \<Rightarrow> string list" where
  "set_add x s = (if x \<in> set s then s else s @ [x])"

text \<open>\<open>s.update(xs)\<close>\<close>

fun set_update :: "string list \<Rightarrow> string list \<Rightarrow> string list" where
  "set_update [] s = s"
| "set_update (x # xs) s = set_update xs (set_add x s)"

text \<open>\<open>f"https://shop.aldi.us{href}" if href.startswith("/") else href\<close>\<close>

definition full_url :: "string \<Rightarrow> string" where
  "full_url href = (if startswith href ''/'' then ''https://shop.aldi.us'' @ href else href)"

text \<open>\<open>"/collections/n-" in full_url or "/collections/rc-" in full_url\<close>\<close>

definition is_collection_url :: "string \<Rightarrow> bool" where
  "is_collection_url u = (str_in ''/collections/n-'' u \<or> str_in ''/collections/rc-'' u)"

text \<open>
  The loop over the links of \<open>get_subcategory_urls\<close>. \<open>href.startswith\<close> on the
  \<open>None\<close> of a missing attribute raises \<open>AttributeError\<close>.
\<close>

fun subcat_loop :: "locator \<Rightarrow> nat list \<Rightarrow> string list \<Rightarrow> error + string list" where
  "subcat_loop subcat_links [] sub_urls = Inr sub_urls"
| "subcat_loop subcat_links (i # is) sub_urls =
     (case loc_get_attribute ''href'' (loc_nth subcat_links i) of
        Inl e \<Rightarrow> Inl e
      | Inr None \<Rightarrow> Inl AttributeError
      | Inr (Some href) \<Rightarrow>
          if is_collection_url (full_url href)
          then subcat_loop subcat_links is (set_add (full_url href) sub_urls)
          else subcat_loop subcat_links is sub_urls)"

definition get_subcategory_urls :: "web \<Rightarrow> string \<Rightarrow> error + string list" where
  "get_subcategory_urls w department_url =
     (case goto w department_url of
        Inl e \<Rightarrow> Inl e
      | Inr page \<Rightarrow>
          (let subcat_links = locator_href_contains ''/store/aldi/collections'' (document page 0)
           in case subcat_loop subcat_links [0..<loc_count subcat_links] [] of
                Inl e \<Rightarrow> Inl e
              | Inr sub_urls \<Rightarrow>
                  if sub_urls = [] then Inr (set_add department_url sub_urls)
                  else Inr sub_urls))"

text \<open>The loop over the department links of \<open>get_department_urls\<close>.\<close>

fun dept_loop :: "locator \<Rightarrow> nat list \<Rightarrow> string list \<Rightarrow> error + string list" where
  "dept_loop department_links [] dept_urls = Inr dept_urls"
| "dept_loop department_links (i # is) dept_urls =
     (case loc_get_attribute ''href'' (loc_nth department_links i) of
        Inl e \<Rightarrow> Inl e
      | Inr None \<Rightarrow> Inl AttributeError
      | Inr (Some href) \<Rightarrow> dept_loop department_links is (set_add (full_url href) dept_urls))"

text \<open>The loop over the departments of \<open>get_department_urls\<close>.\<close>

fun all_sub_loop :: "web \<Rightarrow> string list \<Rightarrow> string list \<Rightarrow> error + string list" where
  "all_sub_loop w [] all_sub_urls = Inr all_sub_urls"
| "all_sub_loop w (dept_url # rest) all_sub_urls =
     (case get_subcategory_urls w dept_url of
        Inl e \<Rightarrow> Inl e
      | Inr sub_urls \<Rightarrow> all_sub_loop w rest (set_update sub_urls all_sub_urls))"

definition base_url :: string where
  "base_url = ''https://shop.aldi.us/store/aldi/storefront''"

definition get_department_urls :: "web \<Rightarrow> error + string list" where
  "get_department_urls w =
     (case goto w base_url of
        Inl e \<Rightarrow> Inl e
      | Inr loaded \<Rightarrow>
     (case (if loc_count (locator ''role=button[name=Confirm]'' (document loaded 0)) > 0
            then click_confirm w loaded else Inr loaded) of
        Inl e \<Rightarrow> Inl e
      | Inr page \<Rightarrow>
          if loc_count (locator ''ul.e-19g896u'' (document page 0)) = 0 then Inr []
          else
            (let department_links = locator ''ul.e-19g896u > li > a.e-v0wv1'' (document page 0)
             in case dept_loop department_links [0..<loc_count department_links] [] of
                  Inl e \<Rightarrow> Inl e
                | Inr dept_urls \<Rightarrow> all_sub_loop w dept_urls [])))"

section \<open>CSV append\<close>

definition CR :: char where
  "CR = CHR 0x0D"

definition LF :: char where
  "LF = CHR 0x0A"

definition DQUOTE :: char where
  "DQUOTE = CHR 0x22"

text \<open>The files of the working directory: name to content.\<close>

type_synonym files = "string \<rightharpoonup> string"

definition fieldnames :: "string list" where
  "fieldnames = [''Date'', ''Category'', ''Product Name'', ''Price'', ''Ounces'']"

text \<open>
  The writer of the \<open>csv\<close> module with its default dialect (delimiter \<open>,\<close>, quote
  character \<open>"\<close> doubled inside a field, minimal quoting, line terminator CR LF): a
  field is quoted when it holds the delimiter, the quote character or a character of the
  line terminator.
\<close>

definition needs_quotes :: "string \<Rightarrow> bool" where
  "needs_quotes f = (\<exists>c \<in> set f. c = CHR '','' \<or> c = DQUOTE \<or> c = CR \<or> c = LF)"

definition write_field :: "string \<Rightarrow> string" where
  "write_field f =
     (if needs_quotes f
      then [DQUOTE] @ concat (map (\<lambda>c. if c = DQUOTE then [DQUOTE, DQUOTE] else [c]) f) @ [DQUOTE]
      else f)"

fun join_fields :: "string list \<Rightarrow> string" where
  "join_fields [] = []"
| "join_fields [f] = f"
| "join_fields (f # g # fs) = f @ '','' @ join_fields (g # fs)"

definition writerow :: "string list \<Rightarrow> string" where
  "writerow row = join_fields (map write_field row) @ [CR, LF]"

text \<open>\<open>DictWriter.writeheader\<close>\<close>

definition writeheader :: string where
  "writeheader = writerow fieldnames"

text \<open>
  \<open>DictWriter._dict_to_list\<close>: a key outside the field names raises \<open>ValueError\<close>, a
  missing key gives the empty string.
\<close>

definition dict_to_list :: "dict \<Rightarrow> error + string list" where
  "dict_to_list rowdict =
     (if \<exists>k \<in> set (map fst rowdict). k \<notin> set fieldnames then Inl ValueError
      else Inr (map (\<lambda>key. case map_of rowdict key of None \<Rightarrow> [] | Some v \<Rightarrow> v) fieldnames))"

text \<open>
  \<open>DictWriter.writerows\<close>: the text written, and the error that ended the writing if
  there was one (the rows before the bad one are written).
\<close>

fun writerows :: "dict list \<Rightarrow> string \<times> error option" where
  "writerows [] = ([], None)"
| "writerows (d # ds) =
     (case dict_to_list d of
        Inl e \<Rightarrow> ([], Some e)
      | Inr row \<Rightarrow> (case writerows ds of (out, r) \<Rightarrow> (writerow row @ out, r)))"

text \<open>
  Reading a file opened in text mode with the default \<open>newline\<close>: CR LF and a lone CR
  both read as LF.
\<close>

fun universal_newlines :: "string \<Rightarrow> string" where
  "universal_newlines [] = []"
| "universal_newlines [c] = [if c = CR then LF else c]"
| "universal_newlines (c # d # ds) =
     (if c = CR \<and> d = LF then LF # universal_newlines ds
      else if c = CR then LF # universal_newlines (d # ds)
      else c # universal_newlines (d # ds))"

text \<open>
  \<open>append_to_csv\<close>. \<open>has_header\<close> stands for \<open>csv.Sniffer().has_header\<close> of the Python
  library, which returns a truth value or raises \<open>csv.Error\<close>. The result is the files
  afterwards and the exception that left the function, if any. Only a missing file is
  handled; every other error of the sniffer escapes before the file is opened for
  appending.
\<close>

definition append_to_csv ::
    "(string \<Rightarrow> error + bool) \<Rightarrow> dict list \<Rightarrow> string \<Rightarrow> files \<Rightarrow> files \<times> error option" where
  "append_to_csv has_header data filename fs =
     (if data = [] then (fs, None)
      else
        (case (case fs filename of
                 None \<Rightarrow> Inr False
               | Some content \<Rightarrow> has_header (take 1024 (universal_newlines content))) of
           Inl e \<Rightarrow> (fs, Some e)
         | Inr has \<Rightarrow>
             (case writerows data of
                (out, r) \<Rightarrow>
                  (fs(filename \<mapsto>
                     (case fs filename of None \<Rightarrow> [] | Some content \<Rightarrow> content) @
                     (if \<not> has then writeheader else []) @ out),
                   r))))"

section \<open>The orchestrator\<close>

text \<open>
  The body of the \<open>try\<close> in \<open>run\<close> for one URL; \<open>clock url\<close> is the date read while
  that URL is scraped.
\<close>

definition scrape_url :: "web \<Rightarrow> (string \<Rightarrow> string) \<Rightarrow> string \<Rightarrow> (error + dict list) option" where
  "scrape_url w clock url =
     (case goto w url of
        Inl e \<Rightarrow> Some (Inl e)
      | Inr page \<Rightarrow> scrape_deli_items page (clock url))"

text \<open>The loop over the URLs in \<open>run\<close>: an exception of one URL is printed and dropped.\<close>

fun run_loop ::
    "web \<Rightarrow> (string \<Rightarrow> string) \<Rightarrow> string list \<Rightarrow> dict list \<Rightarrow> dict list option" where
  "run_loop w clock [] all_deli_data = Some all_deli_data"
| "run_loop w clock (url # urls) all_deli_data =
     (case scrape_url w clock url of
        None \<Rightarrow> None
      | Some (Inl e) \<Rightarrow> run_loop w clock urls all_deli_data
      | Some (Inr deli_data) \<Rightarrow> run_loop w clock urls (all_deli_data @ deli_data))"

text \<open>
  \<open>run\<close>: the files afterwards and the exception that ended the run, if any; \<open>None\<close>
  when the run never ends.
\<close>

definition run ::
    "web \<Rightarrow> (string \<Rightarrow> error + bool) \<Rightarrow> (string \<Rightarrow> string) \<Rightarrow> files \<Rightarrow>
     (files \<times> error option) option" where
  "run w has_header clock fs =
     (case get_department_urls w of
        Inl e \<Rightarrow> Some (fs, Some e)
      | Inr urls \<Rightarrow>
          if urls = [] then Some (fs, None)
          else
            (case run_loop w clock urls [] of
               None \<Rightarrow> None
             | Some all_deli_data \<Rightarrow>
                 Some (append_to_csv has_header all_deli_data ''aldi_products.csv'' fs)))"

section \<open>Auxiliary notions and sample inputs\<close>

text \<open>A product element with nothing below it that any selector finds.\<close>

definition bare_item :: locator where
  "bare_item = [Element ''Ham'' [] []]"

text \<open>A product element with a name and a price of \<open>$3.99\<close>, and no weight.\<close>

definition priced_item :: locator where
  "priced_item =
     [Element ''Ham $3.99'' []
        [(''div.e-2feaft'',
            Element ''$3.99'' [] [(''span.screen-reader-only'', Element ''$3.99'' [] [])]),
         (''div.e-147kl2c'', Element ''Ham'' [] [])]]"

text \<open>
  Product elements whose price is found by the second selector only, with the span texts
  \<open>3.99\<close> and \<open>Free\<close>.
\<close>

definition plain_price_item :: "string \<Rightarrow> locator" where
  "plain_price_item t =
     [Element t []
        [(''div.e-s71gfs'',
            Element t [] [(''span.screen-reader-only'', Element t [] [])])]]"

text \<open>
  The loop that starts after \<open>n\<close> scrolls leaves after \<open>m\<close>: reading \<open>m\<close> is the first
  one after \<open>n\<close> that equals the reading before it.
\<close>

definition stops_at :: "(nat \<Rightarrow> nat) \<Rightarrow> nat \<Rightarrow> nat \<Rightarrow> bool" where
  "stops_at h n m = (n < m \<and> h m = h (m - 1) \<and> (\<forall>j. n < j \<and> j < m \<longrightarrow> h j \<noteq> h (j - 1)))"

text \<open>Heights that grow for two scrolls and then stay, and heights that grow forever.\<close>

definition settling :: "nat \<Rightarrow> nat" where
  "settling n = 100 * min n 2"

definition growing :: "nat \<Rightarrow> nat" where
  "growing n = 100 * n"

text \<open>The links \<open>get_subcategory_urls\<close> looks at on a department page.\<close>

definition subcat_links_of :: "page \<Rightarrow> locator" where
  "subcat_links_of page = locator_href_contains ''/store/aldi/collections'' (document page 0)"

text \<open>A link element with the given \<open>href\<close>.\<close>

definition anchor :: "string \<Rightarrow> element" where
  "anchor href = Element ''link'' [(''href'', href)] []"

text \<open>A page that never grows, with the given anchors.\<close>

definition page_of_anchors :: "string list \<Rightarrow> page" where
  "page_of_anchors hrefs =
     \<lparr>heights = (\<lambda>n. 600),
      document = (\<lambda>n. Element ''page'' [] (map (\<lambda>h. (''a'', anchor h)) hrefs))\<rparr>"

text \<open>A web where every URL loads the same page.\<close>

definition web_of_page :: "page \<Rightarrow> web" where
  "web_of_page p = \<lparr>goto = (\<lambda>url. Inr p), click_confirm = (\<lambda>q. Inr q)\<rparr>"

text \<open>A department page with the same matching link twice.\<close>

definition duplicate_page :: page where
  "duplicate_page =
     page_of_anchors [''/store/aldi/collections/n-123'', ''/store/aldi/collections/n-123'']"

definition department_url_sample :: string where
  "department_url_sample = ''https://shop.aldi.us/store/aldi/collections/dairy''"

text \<open>A department page whose links match neither collection pattern.\<close>

definition plain_department_page :: page where
  "plain_department_page = page_of_anchors [''/store/aldi/collections/produce'', ''/help'']"

text \<open>The cells \<open>DictWriter\<close> writes for a dictionary whose keys are all field names.\<close>

definition row_cells :: "dict \<Rightarrow> string list" where
  "row_cells d = map (\<lambda>key. case map_of d key of None \<Rightarrow> [] | Some v \<Rightarrow> v) fieldnames"

text \<open>A record as \<open>scrape_deli_items\<close> builds it.\<close>

definition juice_row :: dict where
  "juice_row =
     [(''Product Name'', ''Orange Juice''), (''Price'', ''$3.99''), (''Ounces'', ''1 each''),
      (''Category'', ''Beverage''), (''Date'', ''2025-01-01'')]"








definition sample_clock :: "string \<Rightarrow> string" where
  "sample_clock url = ''2025-01-01''"

section \<open>The header sniffer of the csv module\<close>

text \<open>
  \<open>csv.Sniffer().has_header\<close> belongs to the Python library, not to the scraper; the
  definitions of this section follow the library's code (\<open>Sniffer.has_header\<close> and
  \<open>Sniffer.sniff\<close> of \<open>Lib/csv.py\<close>, the reader of \<open>Modules/_csv.c\<close>, the parsing
  of \<open>complex\<close> in \<open>Objects/complexobject.c\<close> and \<open>Python/pystrtod.c\<close>) as CPython
  3.11 has it. They serve to evaluate \<open>append_to_csv\<close> on concrete files; its general
  properties are stated for any sniffer.
\<close>



































section \<open>Properties of field extraction\<close>

lemma split_on_nonempty: "split_on c s \<noteq> []"
  by (induction s) (auto split: list.splits)

lemma split_on_length: "c \<in> set s \<Longrightarrow> 1 < length (split_on c s)"
proof (induction s)
  case Nil
  then show ?case by simp
next
  case (Cons x xs)
  show ?case
  proof (cases "x = c")
    case True
    then show ?thesis using split_on_nonempty [of c xs] by (cases "split_on c xs") auto
  next
    case False
    with Cons show ?thesis by (auto split: list.splits)
  qed
qed

lemma text_or_not_found_first:
  "text_or_not_found (loc_first l) =
     Inr (case l of [] \<Rightarrow> ''Not found'' | e # es \<Rightarrow> inner_text e)"
  by (cases l) (auto simp: text_or_not_found_def loc_first_def loc_count_def)

text \<open>
  C2. When neither price selector yields a screen-reader-only span, the record's Price is
  the text \<open>$Not found\<close>; an absent name or weight gives the plain \<open>Not found\<close>.
\<close>

theorem price_sentinel:
  assumes "price_span ''div.e-2feaft'' item = []"
    and "price_span ''div.e-s71gfs'' item = []"
  shows "\<exists>name ounces.
      extract_item_details item =
        Inr [(''Product Name'', name), (''Price'', ''$Not found''), (''Ounces'', ounces)] \<and>
      (loc_locator ''div.e-147kl2c'' item = [] \<longrightarrow> name = ''Not found'') \<and>
      (loc_locator ''div.e-an4oxa'' item = [] \<longrightarrow> ounces = ''Not found'')"
proof -
  have p: "price_loop [''div.e-2feaft'', ''div.e-s71gfs''] item = Inr ''Not found''"
    using assms by (simp add: loc_count_def)
  show ?thesis
    unfolding extract_item_details_def p text_or_not_found_first
    by (auto split: list.splits)
qed

theorem price_sentinel_witness:
  "price_span ''div.e-2feaft'' bare_item = [] \<and>
   price_span ''div.e-s71gfs'' bare_item = [] \<and>
   loc_locator ''div.e-147kl2c'' bare_item = [] \<and>
   loc_locator ''div.e-an4oxa'' bare_item = [] \<and>
   extract_item_details bare_item =
     Inr [(''Product Name'', ''Not found''), (''Price'', ''$Not found''),
          (''Ounces'', ''Not found'')]"
proof -
  have a: "price_span ''div.e-2feaft'' bare_item = []"
    and b: "price_span ''div.e-s71gfs'' bare_item = []"
    and c: "loc_locator ''div.e-147kl2c'' bare_item = []"
    and d: "loc_locator ''div.e-an4oxa'' bare_item = []"
    by (simp_all add: bare_item_def price_span_def loc_first_def loc_locator_def locator_def)
  from price_sentinel [OF a b] c d show ?thesis using a b by auto
qed

text \<open>
  C9. A product element without a weight whose first price container with a
  screen-reader-only span reads \<open>$3.99\<close> gives Price \<open>$3.99\<close> and Ounces \<open>Not found\<close>.
\<close>

theorem priced_no_weight:
  assumes "price_span ''div.e-2feaft'' item = [s] \<or>
      (price_span ''div.e-2feaft'' item = [] \<and> price_span ''div.e-s71gfs'' item = [s])"
    and "inner_text s = ''$3.99''"
    and "loc_locator ''div.e-an4oxa'' item = []"
  shows "\<exists>name. extract_item_details item =
      Inr [(''Product Name'', name), (''Price'', ''$3.99''), (''Ounces'', ''Not found'')]"
proof -
  have p: "price_loop [''div.e-2feaft'', ''div.e-s71gfs''] item = Inr ''3.99''"
    using assms(1,2) by (auto simp: loc_count_def index_def)
  show ?thesis
    unfolding extract_item_details_def p text_or_not_found_first
    using assms(3) by (auto split: list.splits)
qed

theorem priced_no_weight_witness:
  "price_span ''div.e-2feaft'' priced_item =
     [Element ''$3.99'' [] []] \<and>
   inner_text (Element ''$3.99'' [] []) = ''$3.99'' \<and>
   loc_locator ''div.e-an4oxa'' priced_item = [] \<and>
   extract_item_details priced_item =
     Inr [(''Product Name'', ''Ham''), (''Price'', ''$3.99''), (''Ounces'', ''Not found'')]"
proof -
  have a: "price_span ''div.e-2feaft'' priced_item = [Element ''$3.99'' [] []]"
    and c: "loc_locator ''div.e-an4oxa'' priced_item = []"
    and n: "text_or_not_found (loc_first (loc_locator ''div.e-147kl2c'' priced_item)) = Inr ''Ham''"
    by (simp_all add: priced_item_def price_span_def loc_first_def loc_locator_def locator_def
        text_or_not_found_def loc_count_def)
  have b: "inner_text (Element ''$3.99'' [] []) = ''$3.99''" by simp
  from priced_no_weight [OF disjI1 [OF a] b c]
  obtain name where r: "extract_item_details priced_item =
      Inr [(''Product Name'', name), (''Price'', ''$3.99''), (''Ounces'', ''Not found'')]"
    by blast
  then have "name = ''Ham''"
    using n by (auto simp: extract_item_details_def split: sum.splits)
  with r a b c show ?thesis by simp
qed

text \<open>
  C10. The text after the first \<open>$\<close> is taken only when the span's text holds a \<open>$\<close>;
  otherwise the whole text is the price, and either way the record prefixes it with \<open>$\<close>.
\<close>

theorem price_of_span_text:
  assumes "price_span ''div.e-2feaft'' item = [s] \<or>
      (price_span ''div.e-2feaft'' item = [] \<and> price_span ''div.e-s71gfs'' item = [s])"
  shows "\<exists>name ounces. extract_item_details item =
      Inr [(''Product Name'', name),
           (''Price'',
              ''$'' @ (if CHR ''$'' \<in> set (inner_text s)
                       then split_on CHR ''$'' (inner_text s) ! 1 else inner_text s)),
           (''Ounces'', ounces)]"
proof -
  have p: "price_loop [''div.e-2feaft'', ''div.e-s71gfs''] item =
      Inr (if CHR ''$'' \<in> set (inner_text s)
           then split_on CHR ''$'' (inner_text s) ! 1 else inner_text s)"
    using assms split_on_length [of "CHR ''$''" "inner_text s"]
    by (auto simp: loc_count_def index_def)
  show ?thesis
    unfolding extract_item_details_def p text_or_not_found_first
    by (auto split: list.splits)
qed

theorem price_of_span_text_witness:
  "price_span ''div.e-2feaft'' (plain_price_item ''3.99'') = [] \<and>
   price_span ''div.e-s71gfs'' (plain_price_item ''3.99'') = [Element ''3.99'' [] []] \<and>
   map_of (projr (extract_item_details (plain_price_item ''3.99''))) ''Price'' = Some ''$3.99'' \<and>
   price_span ''div.e-2feaft'' (plain_price_item ''Free'') = [] \<and>
   price_span ''div.e-s71gfs'' (plain_price_item ''Free'') = [Element ''Free'' [] []] \<and>
   map_of (projr (extract_item_details (plain_price_item ''Free''))) ''Price'' = Some ''$Free''"
proof -
  have a: "price_span ''div.e-2feaft'' (plain_price_item t) = []"
    and b: "price_span ''div.e-s71gfs'' (plain_price_item t) = [Element t [] []]" for t
    by (simp_all add: plain_price_item_def price_span_def loc_first_def loc_locator_def
        locator_def)
  from price_of_span_text [OF disjI2 [OF conjI [OF a b]], of "''3.99''"]
  have x: "map_of (projr (extract_item_details (plain_price_item ''3.99''))) ''Price'' =
      Some ''$3.99''"
    by auto
  from price_of_span_text [OF disjI2 [OF conjI [OF a b]], of "''Free''"]
  have y: "map_of (projr (extract_item_details (plain_price_item ''Free''))) ''Price'' =
      Some ''$Free''"
    by auto
  from a b x y show ?thesis by simp
qed

section \<open>Properties of the stabilization loop\<close>

lemma scroll_loop_stops:
  "h (n + Suc k) = h (n + k) \<Longrightarrow> (\<forall>j<k. h (n + Suc j) \<noteq> h (n + j)) \<Longrightarrow>
   scroll_loop h n (h n) = Some (n + Suc k)"
proof (induction k arbitrary: n)
  case 0
  then show ?case by (subst scroll_loop.simps) simp
next
  case (Suc k)
  have ne: "h (Suc n) \<noteq> h n" using Suc.prems(2) [rule_format, of 0] by simp
  have "scroll_loop h (Suc n) (h (Suc n)) = Some (Suc n + Suc k)"
  proof (rule Suc.IH)
    show "h (Suc n + Suc k) = h (Suc n + k)" using Suc.prems(1) by simp
    show "\<forall>j<k. h (Suc n + Suc j) \<noteq> h (Suc n + j)"
      using Suc.prems(2) [rule_format, of "Suc j" for j] by simp
  qed
  with ne show ?case by (subst scroll_loop.simps) simp
qed

lemma scroll_loop_Some:
  assumes "scroll_loop h n l = Some m"
  shows "l = h n \<longrightarrow> stops_at h n m"
proof (rule scroll_loop.raw_induct
    [where P = "\<lambda>h n l m. l = h n \<longrightarrow> stops_at h n m", OF _ assms])
  fix f :: "(nat \<Rightarrow> nat) \<Rightarrow> nat \<Rightarrow> nat \<Rightarrow> nat option" and h n l m
  assume ih: "\<And>h n l m. f h n l = Some m \<Longrightarrow> l = h n \<longrightarrow> stops_at h n m"
    and eq: "(if h (Suc n) = l then Some (Suc n) else f h (Suc n) (h (Suc n))) = Some m"
  show "l = h n \<longrightarrow> stops_at h n m"
  proof
    assume l: "l = h n"
    show "stops_at h n m"
    proof (cases "h (Suc n) = l")
      case True
      with eq l show ?thesis by (auto simp: stops_at_def)
    next
      case False
      with eq have "f h (Suc n) (h (Suc n)) = Some m" by simp
      from ih [OF this] have s: "stops_at h (Suc n) m" by simp
      have "h j \<noteq> h (j - 1)" if "n < j" "j < m" for j
      proof (cases "j = Suc n")
        case True
        then show ?thesis using False l by simp
      next
        case False
        then show ?thesis using s that by (auto simp: stops_at_def)
      qed
      with s show ?thesis by (auto simp: stops_at_def)
    qed
  qed
qed

lemma stops_at_loop: "stops_at h n m \<Longrightarrow> scroll_loop h n (h n) = Some m"
proof -
  assume s: "stops_at h n m"
  then obtain k where m: "m = n + Suc k"
    unfolding stops_at_def by (metis less_imp_Suc_add add_Suc_right)
  have "h (n + Suc k) = h (n + k)" using s m by (simp add: stops_at_def)
  moreover have "\<forall>j<k. h (n + Suc j) \<noteq> h (n + j)"
  proof (intro allI impI)
    fix j assume "j < k"
    then have "n < n + Suc j \<and> n + Suc j < m" using m by simp
    with s have "h (n + Suc j) \<noteq> h (n + Suc j - 1)" unfolding stops_at_def by blast
    then show "h (n + Suc j) \<noteq> h (n + j)" by simp
  qed
  ultimately show ?thesis using scroll_loop_stops m by simp
qed

text \<open>
  C5. Over the sequence of height readings the loop leaves exactly at the first reading
  that equals the one before it, and when no two consecutive readings are ever equal it
  never leaves.
\<close>

theorem scroll_stops_exactly:
  "(scroll_to_load_all_items h = Some m \<longleftrightarrow>
      0 < m \<and> h m = h (m - 1) \<and> (\<forall>j. 0 < j \<and> j < m \<longrightarrow> h j \<noteq> h (j - 1))) \<and>
   ((\<forall>j. h (Suc j) \<noteq> h j) \<longrightarrow> scroll_to_load_all_items h = None)"
proof
  show "scroll_to_load_all_items h = Some m \<longleftrightarrow>
      0 < m \<and> h m = h (m - 1) \<and> (\<forall>j. 0 < j \<and> j < m \<longrightarrow> h j \<noteq> h (j - 1))"
  proof
    assume "scroll_to_load_all_items h = Some m"
    then have "stops_at h 0 m"
      unfolding scroll_to_load_all_items_def using scroll_loop_Some by blast
    then show "0 < m \<and> h m = h (m - 1) \<and> (\<forall>j. 0 < j \<and> j < m \<longrightarrow> h j \<noteq> h (j - 1))"
      unfolding stops_at_def .
  next
    assume "0 < m \<and> h m = h (m - 1) \<and> (\<forall>j. 0 < j \<and> j < m \<longrightarrow> h j \<noteq> h (j - 1))"
    then have "stops_at h 0 m" unfolding stops_at_def .
    then show "scroll_to_load_all_items h = Some m"
      unfolding scroll_to_load_all_items_def by (rule stops_at_loop)
  qed
  show "(\<forall>j. h (Suc j) \<noteq> h j) \<longrightarrow> scroll_to_load_all_items h = None"
  proof
    assume ne: "\<forall>j. h (Suc j) \<noteq> h j"
    show "scroll_to_load_all_items h = None"
    proof (cases "scroll_to_load_all_items h")
      case None
      then show ?thesis .
    next
      case (Some m)
      then have "stops_at h 0 m"
        unfolding scroll_to_load_all_items_def using scroll_loop_Some by blast
      then have "0 < m" "h m = h (m - 1)" by (auto simp: stops_at_def)
      with ne [rule_format, of "m - 1"] show ?thesis by simp
    qed
  qed
qed

theorem scroll_stops_exactly_witness:
  "scroll_to_load_all_items settling = Some 3 \<and> scroll_to_load_all_items growing = None"
proof -
  have "\<forall>j. 0 < j \<and> j < 3 \<longrightarrow> settling j \<noteq> settling (j - 1)"
  proof (intro allI impI)
    fix j :: nat assume "0 < j \<and> j < 3"
    then have "j = 1 \<or> j = 2" by auto
    then show "settling j \<noteq> settling (j - 1)" by (auto simp: settling_def)
  qed
  then have a: "scroll_to_load_all_items settling = Some 3"
    using scroll_stops_exactly [of settling 3] by (simp add: settling_def)
  have "\<forall>j. growing (Suc j) \<noteq> growing j" by (simp add: growing_def)
  then have b: "scroll_to_load_all_items growing = None"
    using scroll_stops_exactly [of growing 0] by blast
  from a b show ?thesis by simp
qed

section \<open>Properties of category discovery\<close>

lemma set_add_distinct: "distinct s \<Longrightarrow> distinct (set_add x s)"
  by (simp add: set_add_def)

lemma set_add_set: "set (set_add x s) = insert x (set s)"
  by (auto simp: set_add_def)

lemma loc_nth_nth: "i < length l \<Longrightarrow> loc_nth l i = [l ! i]"
  by (simp add: loc_nth_def take_Suc_conv_app_nth hd_drop_conv_nth take_Suc)

lemma subcat_loop_distinct:
  "subcat_loop links is acc = Inr urls \<Longrightarrow> distinct acc \<Longrightarrow> distinct urls"
proof (induction "is" arbitrary: acc)
  case Nil
  then show ?case by simp
next
  case (Cons i "is")
  then show ?case
    by (auto split: sum.splits option.splits if_splits intro: set_add_distinct)
qed

lemma subcat_loop_set:
  "subcat_loop links is acc = Inr urls \<Longrightarrow> \<forall>i \<in> set is. i < length links \<Longrightarrow>
   set urls = set acc \<union>
     {full_url h | h i. i \<in> set is \<and> map_of (attributes (links ! i)) ''href'' = Some h \<and>
        is_collection_url (full_url h)}"
proof (induction "is" arbitrary: acc)
  case Nil
  then show ?case by simp
next
  case (Cons i "is")
  from Cons.prems(2) have i: "i < length links" and rest: "\<forall>i \<in> set is. i < length links"
    by auto
  from Cons.prems(1) i obtain h where h: "map_of (attributes (links ! i)) ''href'' = Some h"
    by (auto simp: loc_nth_nth split: option.splits)
  show ?case
  proof (cases "is_collection_url (full_url h)")
    case True
    with Cons.prems(1) i h have "subcat_loop links is (set_add (full_url h) acc) = Inr urls"
      by (simp add: loc_nth_nth)
    from Cons.IH [OF this rest] show ?thesis using h True by (auto simp: set_add_set)
  next
    case False
    with Cons.prems(1) i h have "subcat_loop links is acc = Inr urls"
      by (simp add: loc_nth_nth)
    from Cons.IH [OF this rest] show ?thesis using h False by auto
  qed
qed

lemma subcat_loop_no_match:
  "\<forall>i \<in> set is. i < length links \<and>
      (\<exists>h. map_of (attributes (links ! i)) ''href'' = Some h \<and> \<not> is_collection_url (full_url h)) \<Longrightarrow>
   subcat_loop links is acc = Inr acc"
  by (induction "is" arbitrary: acc) (auto simp: loc_nth_nth)

lemma href_contains_has_href:
  "a \<in> set (locator_href_contains sub e) \<Longrightarrow> \<exists>h. map_of (attributes a) ''href'' = Some h"
  by (auto simp: locator_href_contains_def split: option.splits)

lemma count_list_distinct: "distinct xs \<Longrightarrow> x \<in> set xs \<Longrightarrow> count_list xs x = 1"
  by (induction xs) (auto simp: count_list_0_iff)

lemma subcat_loop_total:
  assumes "\<forall>a \<in> set links. \<exists>h. map_of (attributes a) ''href'' = Some h"
    and "\<forall>i \<in> set is. i < length links"
  shows "\<exists>urls. subcat_loop links is acc = Inr urls"
  using assms(2)
proof (induction "is" arbitrary: acc)
  case Nil
  then show ?case by simp
next
  case (Cons i "is")
  then have i: "i < length links" by simp
  with assms(1) obtain h where "map_of (attributes (links ! i)) ''href'' = Some h"
    by (meson nth_mem)
  with Cons i show ?case by (auto simp: loc_nth_nth)
qed

text \<open>
  C3. Sub-category discovery on a loaded department page returns a list without
  repetitions in which the URL of every matching link occurs exactly once, however often
  the link occurs on the page; the page with \<open>/store/aldi/collections/n-123\<close> twice gives
  the one URL \<open>https://shop.aldi.us/store/aldi/collections/n-123\<close>.
\<close>

theorem subcategory_urls_once:
  assumes "goto w department_url = Inr page"
  shows "\<exists>urls. get_subcategory_urls w department_url = Inr urls \<and> distinct urls \<and>
    (\<forall>a \<in> set (subcat_links_of page). \<forall>h.
        map_of (attributes a) ''href'' = Some h \<and> is_collection_url (full_url h) \<longrightarrow>
        count_list urls (full_url h) = 1)"
proof -
  let ?links = "subcat_links_of page"
  let ?is = "[0..<loc_count ?links]"
  have bound: "\<forall>i \<in> set ?is. i < length ?links" by (simp add: loc_count_def)
  have "\<forall>a \<in> set ?links. \<exists>h. map_of (attributes a) ''href'' = Some h"
    unfolding subcat_links_of_def using href_contains_has_href by blast
  from subcat_loop_total [OF this bound] obtain sub_urls
    where loop: "subcat_loop ?links ?is [] = Inr sub_urls" by blast
  have d: "distinct sub_urls" using subcat_loop_distinct [OF loop] by simp
  have s: "set sub_urls =
      {full_url h | h i. i \<in> set ?is \<and> map_of (attributes (?links ! i)) ''href'' = Some h \<and>
        is_collection_url (full_url h)}"
    using subcat_loop_set [OF loop bound] by simp
  define urls where "urls = (if sub_urls = [] then set_add department_url sub_urls else sub_urls)"
  have r: "get_subcategory_urls w department_url = Inr urls"
    using assms loop
    by (simp add: get_subcategory_urls_def urls_def subcat_links_of_def Let_def)
  have du: "distinct urls" using d by (simp add: urls_def set_add_def)
  have "count_list urls (full_url h) = 1"
    if a: "a \<in> set ?links" and h: "map_of (attributes a) ''href'' = Some h"
      and c: "is_collection_url (full_url h)" for a h
  proof -
    from a obtain i where "i < length ?links" "?links ! i = a" by (meson in_set_conv_nth)
    with h c have "full_url h \<in> set sub_urls"
      unfolding s by (auto simp: loc_count_def)
    then have "full_url h \<in> set urls" by (auto simp: urls_def)
    with du show ?thesis by (rule count_list_distinct)
  qed
  with r du show ?thesis by blast
qed

text \<open>
  C4. When no link of the department page matches a collection pattern, discovery returns
  the one-element list of the department URL itself.
\<close>

theorem subcategory_fallback:
  assumes "goto w department_url = Inr page"
    and "\<forall>a \<in> set (subcat_links_of page). \<forall>h.
        map_of (attributes a) ''href'' = Some h \<longrightarrow> \<not> is_collection_url (full_url h)"
  shows "get_subcategory_urls w department_url = Inr [department_url]"
proof -
  let ?links = "subcat_links_of page"
  have "\<forall>i \<in> set [0..<loc_count ?links]. i < length ?links \<and>
      (\<exists>h. map_of (attributes (?links ! i)) ''href'' = Some h \<and>
           \<not> is_collection_url (full_url h))"
  proof
    fix i assume "i \<in> set [0..<loc_count ?links]"
    then have i: "i < length ?links" by (simp add: loc_count_def)
    then have m: "?links ! i \<in> set ?links" by simp
    then obtain h where h: "map_of (attributes (?links ! i)) ''href'' = Some h"
      unfolding subcat_links_of_def using href_contains_has_href by blast
    with assms(2) m have "\<not> is_collection_url (full_url h)" by blast
    with i h show "i < length ?links \<and>
      (\<exists>h. map_of (attributes (?links ! i)) ''href'' = Some h \<and>
           \<not> is_collection_url (full_url h))" by blast
  qed
  then have "subcat_loop ?links [0..<loc_count ?links] [] = Inr []"
    by (rule subcat_loop_no_match)
  with assms(1) show ?thesis
    by (simp add: get_subcategory_urls_def subcat_links_of_def set_add_def)
qed

lemma dup_links: "subcat_links_of duplicate_page =
    [anchor ''/store/aldi/collections/n-123'', anchor ''/store/aldi/collections/n-123'']"
  by (simp add: subcat_links_of_def duplicate_page_def page_of_anchors_def
      locator_href_contains_def locator_def anchor_def startswith_def)

lemma dup_result: "get_subcategory_urls (web_of_page duplicate_page) department_url_sample =
     Inr [''https://shop.aldi.us/store/aldi/collections/n-123'']"
  using dup_links
  by (simp add: get_subcategory_urls_def web_of_page_def subcat_links_of_def loc_count_def
      upt_rec loc_nth_def anchor_def full_url_def is_collection_url_def startswith_def
      set_add_def)

theorem subcategory_urls_once_witness:
  "goto (web_of_page duplicate_page) department_url_sample = Inr duplicate_page \<and>
   get_subcategory_urls (web_of_page duplicate_page) department_url_sample =
     Inr [''https://shop.aldi.us/store/aldi/collections/n-123''] \<and>
   count_list [''https://shop.aldi.us/store/aldi/collections/n-123'']
     (full_url ''/store/aldi/collections/n-123'') = 1"
proof -
  have g: "goto (web_of_page duplicate_page) department_url_sample = Inr duplicate_page"
    by (simp add: web_of_page_def)
  have m: "anchor ''/store/aldi/collections/n-123'' \<in> set (subcat_links_of duplicate_page)"
    by (simp add: dup_links)
  have h: "map_of (attributes (anchor ''/store/aldi/collections/n-123'')) ''href'' =
      Some ''/store/aldi/collections/n-123''"
    by (simp add: anchor_def)
  have c: "is_collection_url (full_url ''/store/aldi/collections/n-123'')"
    by (simp add: full_url_def is_collection_url_def startswith_def)
  from subcategory_urls_once [OF g] m h c dup_result
  have "count_list [''https://shop.aldi.us/store/aldi/collections/n-123'']
     (full_url ''/store/aldi/collections/n-123'') = 1"
    by auto
  with g dup_result show ?thesis by simp
qed

theorem subcategory_fallback_witness:
  "goto (web_of_page plain_department_page) department_url_sample = Inr plain_department_page \<and>
   subcat_links_of plain_department_page = [anchor ''/store/aldi/collections/produce''] \<and>
   \<not> is_collection_url (full_url ''/store/aldi/collections/produce'') \<and>
   get_subcategory_urls (web_of_page plain_department_page) department_url_sample =
     Inr [department_url_sample]"
proof -
  have g: "goto (web_of_page plain_department_page) department_url_sample =
      Inr plain_department_page"
    by (simp add: web_of_page_def)
  have l: "subcat_links_of plain_department_page = [anchor ''/store/aldi/collections/produce'']"
    by (simp add: subcat_links_of_def plain_department_page_def page_of_anchors_def
        locator_href_contains_def locator_def anchor_def startswith_def)
  have c: "\<not> is_collection_url (full_url ''/store/aldi/collections/produce'')"
    by (simp add: full_url_def is_collection_url_def startswith_def)
  have "\<forall>a \<in> set (subcat_links_of plain_department_page). \<forall>h.
      map_of (attributes a) ''href'' = Some h \<longrightarrow> \<not> is_collection_url (full_url h)"
    using c by (simp add: l anchor_def)
  from subcategory_fallback [OF g this] g l c show ?thesis by simp
qed

section \<open>Properties of the CSV append\<close>

lemma writeheader_text: "writeheader = ''Date,Category,Product Name,Price,Ounces'' @ [CR, LF]"
  by (simp add: writeheader_def writerow_def fieldnames_def write_field_def needs_quotes_def
      DQUOTE_def CR_def LF_def)

lemma writerows_wellformed:
  "\<forall>d \<in> set data. set (map fst d) \<subseteq> set fieldnames \<Longrightarrow>
   writerows data = (concat (map (\<lambda>d. writerow (row_cells d)) data), None)"
  by (induction data) (auto simp: dict_to_list_def row_cells_def)

text \<open>
  C7. Appending a non-empty batch to a file that does not exist writes the header row
  \<open>Date,Category,Product Name,Price,Ounces\<close> first and once, then the data rows, without
  consulting the sniffer.
\<close>

theorem append_to_missing_file:
  assumes "data \<noteq> []" and "fs filename = None"
  shows "append_to_csv has_header data filename fs =
      (fs(filename \<mapsto>
         ''Date,Category,Product Name,Price,Ounces'' @ [CR, LF] @ fst (writerows data)),
       snd (writerows data)) \<and>
    ((\<forall>d \<in> set data. set (map fst d) \<subseteq> set fieldnames) \<longrightarrow>
      writerows data = (concat (map (\<lambda>d. writerow (row_cells d)) data), None))"
proof
  show "append_to_csv has_header data filename fs =
      (fs(filename \<mapsto>
         ''Date,Category,Product Name,Price,Ounces'' @ [CR, LF] @ fst (writerows data)),
       snd (writerows data))"
    using assms by (simp add: append_to_csv_def writeheader_text split: prod.splits)
  show "(\<forall>d \<in> set data. set (map fst d) \<subseteq> set fieldnames) \<longrightarrow>
      writerows data = (concat (map (\<lambda>d. writerow (row_cells d)) data), None)"
    using writerows_wellformed by blast
qed

lemma juice_text: "writerow (row_cells juice_row) =
    ''2025-01-01,Beverage,Orange Juice,$3.99,1 each'' @ [CR, LF]"
  by (simp add: writerow_def row_cells_def juice_row_def fieldnames_def write_field_def
      needs_quotes_def DQUOTE_def CR_def LF_def)

theorem append_to_missing_file_witness:
  "[juice_row] \<noteq> [] \<and> (Map.empty :: files) ''aldi_products.csv'' = None \<and>
   set (map fst juice_row) \<subseteq> set fieldnames \<and>
   fst (append_to_csv (\<lambda>sample. Inl CsvError) [juice_row] ''aldi_products.csv'' Map.empty)
     ''aldi_products.csv'' =
     Some (''Date,Category,Product Name,Price,Ounces'' @ [CR, LF] @
           ''2025-01-01,Beverage,Orange Juice,$3.99,1 each'' @ [CR, LF]) \<and>
   snd (append_to_csv (\<lambda>sample. Inl CsvError) [juice_row] ''aldi_products.csv'' Map.empty) =
     None"
proof -
  have a: "[juice_row] \<noteq> []" by simp
  have b: "(Map.empty :: files) ''aldi_products.csv'' = None" by simp
  have c: "set (map fst juice_row) \<subseteq> set fieldnames"
    by (simp add: juice_row_def fieldnames_def)
  from append_to_missing_file [OF a b, of "\<lambda>sample. Inl CsvError"] c juice_text
  show ?thesis using a b by simp
qed

section \<open>Properties of the orchestrator\<close>



text \<open>
  C6. When the navigation list is not on the storefront page, discovery returns the empty
  list and the run ends with the files as they were.
\<close>

theorem missing_navigation_list:
  assumes "goto w base_url = Inr loaded"
    and "(if loc_count (locator ''role=button[name=Confirm]'' (document loaded 0)) > 0
          then click_confirm w loaded else Inr loaded) = Inr page"
    and "locator ''ul.e-19g896u'' (document page 0) = []"
  shows "get_department_urls w = Inr [] \<and> run w has_header clock fs = Some (fs, None)"
proof -
  have "get_department_urls w = Inr []"
    unfolding get_department_urls_def using assms by (simp add: loc_count_def)
  then show ?thesis by (simp add: run_def)
qed

theorem missing_navigation_list_witness:
  "goto (web_of_page (page_of_anchors [])) base_url = Inr (page_of_anchors []) \<and>
   loc_count (locator ''role=button[name=Confirm]'' (document (page_of_anchors []) 0)) = 0 \<and>
   locator ''ul.e-19g896u'' (document (page_of_anchors []) 0) = [] \<and>
   get_department_urls (web_of_page (page_of_anchors [])) = Inr [] \<and>
   run (web_of_page (page_of_anchors [])) (\<lambda>sample. Inr False) sample_clock
     [''aldi_products.csv'' \<mapsto> ''kept''] =
     Some ([''aldi_products.csv'' \<mapsto> ''kept''], None)"
proof -
  have a: "goto (web_of_page (page_of_anchors [])) base_url = Inr (page_of_anchors [])"
    by (simp add: web_of_page_def)
  have c: "loc_count (locator ''role=button[name=Confirm]'' (document (page_of_anchors []) 0)) = 0"
    by (simp add: page_of_anchors_def locator_def loc_count_def)
  then have b: "(if loc_count (locator ''role=button[name=Confirm]''
        (document (page_of_anchors []) 0)) > 0
      then click_confirm (web_of_page (page_of_anchors [])) (page_of_anchors [])
      else Inr (page_of_anchors [])) = Inr (page_of_anchors [])"
    by simp
  have d: "locator ''ul.e-19g896u'' (document (page_of_anchors []) 0) = []"
    by (simp add: page_of_anchors_def locator_def)
  from missing_navigation_list [OF a b d] a c d show ?thesis by simp
qed









section \<open>Header rows of successive appends\<close>











end
